theory Spec2Isabelle
  imports Main
begin

section \<open>Python strings and primitives used by csv2latex-table.py\<close>

text \<open>
  A Python \<open>str\<close> is modelled as a \<open>string\<close>, one \<open>char\<close> per code point, so the
  model covers the code points U+0000 to U+00FF. The backslash is \<open>CHR 0x5C\<close> and the
  newline is \<open>CHR 0x0A\<close>.
\<close>

definition bsl :: char where
  "bsl = CHR 0x5C"

definition nl :: char where
  "nl = CHR 0x0A"

text \<open>
  \<open>str.isspace\<close> on one code point below U+0100: TAB, LF, VT, FF, CR, the four
  separators U+001C to U+001F, the space, NEL (U+0085) and the no-break space (U+00A0).
\<close>

definition isspace :: "char \<Rightarrow> bool" where
  "isspace c = (of_char c \<in> {9, 10, 11, 12, 13, 28, 29, 30, 31, 32, 133, 160 :: nat})"

text \<open>\<open>s.strip()\<close>: drop the whitespace at both ends.\<close>

definition strip :: "string \<Rightarrow> string" where
  "strip s = rev (dropWhile isspace (rev (dropWhile isspace s)))"

text \<open>
  \<open>s.replace(old, new)\<close>: the occurrences of \<open>old\<close> are found from the left and do
  not overlap. With an empty \<open>old\<close>, Python puts \<open>new\<close> before every character and at
  the end.
\<close>

fun replace_scan :: "string \<Rightarrow> string \<Rightarrow> string \<Rightarrow> string" where
  "replace_scan old new [] = []"
| "replace_scan old new (c # cs) =
     (if old \<noteq> [] \<and> take (length old) (c # cs) = old
      then new @ replace_scan old new (drop (length old) (c # cs))
      else c # replace_scan old new cs)"

definition replace :: "string \<Rightarrow> string \<Rightarrow> string \<Rightarrow> string" where
  "replace old new s =
     (if old = [] then new @ concat (map (\<lambda>c. c # new) s) else replace_scan old new s)"

text \<open>\<open>sep.join(xs)\<close>.\<close>

fun join :: "string \<Rightarrow> string list \<Rightarrow> string" where
  "join sep [] = []"
| "join sep [x] = x"
| "join sep (x # y # ys) = x @ sep @ join sep (y # ys)"

text \<open>\<open>str(n)\<close> of an integer, in decimal.\<close>

fun str_nat :: "nat \<Rightarrow> string" where
  "str_nat n =
     (if n < 10 then [''0123456789'' ! n]
      else str_nat (n div 10) @ [''0123456789'' ! (n mod 10)])"

definition str_int :: "int \<Rightarrow> string" where
  "str_int i = (if i < 0 then CHR ''-'' # str_nat (nat (- i)) else str_nat (nat i))"

section \<open>escape_latex\<close>

text \<open>The raw string \<open>r'\textemdash'\<close>.\<close>

definition textemdash :: string where
  "textemdash = bsl # ''textemdash''"

text \<open>The list of line 22: the values that stand for a missing cell.\<close>

definition missing_values :: "string list" where
  "missing_values = ['''', ''NA'', ''N/A'', ''NaN'', ''None'', [bsl], ''//'', ''---'', ''_'']"

text \<open>The table of lines 30 to 45, in the order of the source.\<close>

definition replacements :: "(string \<times> string) list" where
  "replacements =
     [([bsl], bsl # ''textbackslash{}''),
      (''&'', bsl # ''&''),
      (''%'', bsl # ''%''),
      (''$'', bsl # ''$''),
      (''#'', bsl # ''#''),
      (''_'', bsl # ''_''),
      (''{'', bsl # ''{''),
      (''}'', bsl # ''}''),
      (''~'', bsl # ''textasciitilde{}''),
      (''^'', bsl # ''textasciicircum{}''),
      (''<'', bsl # ''textless{}''),
      (''>'', bsl # ''textgreater{}''),
      (''['', ''{[}''),
      ('']'', ''{]}'')]"

text \<open>The loop of lines 46 and 47: each pair rewrites the whole current string.\<close>

fun apply_replacements :: "(string \<times> string) list \<Rightarrow> string \<Rightarrow> string" where
  "apply_replacements [] s = s"
| "apply_replacements ((orig, repl) # rest) s = apply_replacements rest (replace orig repl s)"

definition escape_latex :: "string \<Rightarrow> string" where
  "escape_latex s =
     (if strip s \<in> set missing_values then textemdash
      else if strip s = ''/'' then ''/''
      else apply_replacements replacements s)"

text \<open>
  Lines 18 and 19 turn a value that is not a string into \<open>str(s)\<close> first. The values
  modelled are strings, integers and \<open>None\<close>.
\<close>

datatype pyval = Str string | IntV int | NoneV

fun py_str :: "pyval \<Rightarrow> string" where
  "py_str (Str s) = s"
| "py_str (IntV i) = str_int i"
| "py_str NoneV = ''None''"

definition escape_latex_val :: "pyval \<Rightarrow> string" where
  "escape_latex_val v = escape_latex (py_str v)"

section \<open>process_header_row\<close>

text \<open>The test \<open>cell and cell != r'\textemdash'\<close> of lines 66, 78 and 83.\<close>

definition populated :: "string \<Rightarrow> bool" where
  "populated cell = (cell \<noteq> [] \<and> cell \<noteq> textemdash)"

text \<open>
  The scan of lines 65 to 72, from index \<open>i\<close> on, with the ranges collected so far and
  the start of the open run of blank cells.
\<close>

fun find_subgroups ::
  "int \<Rightarrow> string list \<Rightarrow> (int \<times> int) list \<Rightarrow> int option \<Rightarrow> (int \<times> int) list \<times> int option"
where
  "find_subgroups i [] subgroup_ranges start_idx = (subgroup_ranges, start_idx)"
| "find_subgroups i (cell # rest) subgroup_ranges start_idx =
     (if populated cell then
        (case start_idx of
           Some s \<Rightarrow> find_subgroups (i + 1) rest (subgroup_ranges @ [(s, i - 1)]) None
         | None \<Rightarrow> find_subgroups (i + 1) rest subgroup_ranges None)
      else
        (case start_idx of
           None \<Rightarrow> find_subgroups (i + 1) rest subgroup_ranges (Some i)
         | Some s \<Rightarrow> find_subgroups (i + 1) rest subgroup_ranges (Some s)))"

text \<open>Lines 61 to 74: the scan, then the run still open at the end of the row.\<close>

definition subgroup_ranges_of :: "string list \<Rightarrow> (int \<times> int) list" where
  "subgroup_ranges_of row =
     (case find_subgroups 0 row [] None of
        (subgroup_ranges, Some s) \<Rightarrow> subgroup_ranges @ [(s, int (length row) - 1)]
      | (subgroup_ranges, None) \<Rightarrow> subgroup_ranges)"

text \<open>Line 80.\<close>

definition in_subgroup :: "(int \<times> int) list \<Rightarrow> int \<Rightarrow> bool" where
  "in_subgroup subgroup_ranges i = list_ex (\<lambda>(start, end). start \<le> i \<and> i \<le> end) subgroup_ranges"

text \<open>
  Line 83. \<open>prev_row\<close> is \<open>None\<close> or a list, and an empty list is false as well; the
  index is never negative, so \<open>prev_row[i]\<close> is read only inside the list.
\<close>

definition prev_has_content :: "string list option \<Rightarrow> int \<Rightarrow> bool" where
  "prev_has_content prev_row i =
     (case prev_row of
        None \<Rightarrow> False
      | Some p \<Rightarrow> p \<noteq> [] \<and> i < int (length p) \<and> 0 \<le> i \<and> populated (p ! nat i))"

text \<open>Line 91: the text of the partial rule, with the columns counted from 1.\<close>

definition cmidrule :: "int \<Rightarrow> int \<Rightarrow> string" where
  "cmidrule start end =
     bsl # ''cmidrule(lr){'' @ str_int (start + 1) @ ''-'' @ str_int (end + 1) @ ''}'' @ [nl]"

text \<open>
  Lines 79 to 95 for one cell: the strings this iteration appends to \<open>processed\<close>, in
  order. The rule is appended as an element of its own, before the cell.
\<close>

definition process_cell ::
  "(int \<times> int) list \<Rightarrow> string list option \<Rightarrow> int \<Rightarrow> string \<Rightarrow> string list"
where
  "process_cell subgroup_ranges prev_row i cell =
     (if populated cell then
        (if in_subgroup subgroup_ranges i \<and> \<not> prev_has_content prev_row i then
           (case find (\<lambda>r. fst r \<le> i \<and> i \<le> snd r) subgroup_ranges of
              Some (start, end) \<Rightarrow> [cmidrule start end]
            | None \<Rightarrow> [])
         else []) @ [cell]
      else [''''])"

text \<open>The loop of lines 77 to 95, from index \<open>i\<close> on.\<close>

fun process_cells ::
  "(int \<times> int) list \<Rightarrow> string list option \<Rightarrow> int \<Rightarrow> string list \<Rightarrow> string list"
where
  "process_cells subgroup_ranges prev_row i [] = []"
| "process_cells subgroup_ranges prev_row i (cell # rest) =
     process_cell subgroup_ranges prev_row i cell
       @ process_cells subgroup_ranges prev_row (i + 1) rest"

definition process_header_row :: "string list \<Rightarrow> string list option \<Rightarrow> string list" where
  "process_header_row row prev_row = process_cells (subgroup_ranges_of row) prev_row 0 row"

section \<open>csv_to_latex_table\<close>

subsection \<open>Exceptions and the files\<close>

text \<open>
  An exception is \<open>IndexError\<close>, which a list index out of range raises, or one raised
  by the file system, the decoder, the CSV reader or \<open>chardet\<close>, kept with its message.
\<close>

datatype exn = IndexError | Raised string

fun exn_msg :: "exn \<Rightarrow> string" where
  "exn_msg IndexError = ''list index out of range''"
| "exn_msg (Raised m) = m"

text \<open>
  What the function finds outside itself. \<open>chardet_sample path\<close> is the outcome of
  lines 9 to 11: an exception, or the value of \<open>result['encoding']\<close>, which may be
  \<open>None\<close>. \<open>read_rows path enc\<close> is the outcome of lines 121 to 123: opening the file
  with that encoding and reading all its rows. \<open>open_output\<close>, \<open>write_output\<close> (by the
  number of the call) and \<open>close_output\<close> are the outcomes of opening the output,
  of each \<open>f.write\<close> and of leaving the \<open>with\<close> block.
\<close>

record env =
  chardet_sample :: "string \<Rightarrow> exn + string option"
  read_rows :: "string \<Rightarrow> string \<Rightarrow> exn + string list list"
  open_output :: "string \<Rightarrow> exn option"
  write_output :: "nat \<Rightarrow> string \<Rightarrow> exn option"
  close_output :: "exn option"

text \<open>Lines 6 to 14. \<open>result['encoding'] or 'utf-8'\<close> replaces \<open>None\<close> and the empty name.\<close>

definition detect_encoding :: "env \<Rightarrow> string \<Rightarrow> string" where
  "detect_encoding e file_path =
     (case chardet_sample e file_path of
        Inl _ \<Rightarrow> ''utf-8''
      | Inr None \<Rightarrow> ''utf-8''
      | Inr (Some enc) \<Rightarrow> if enc = [] then ''utf-8'' else enc)"

text \<open>\<open>xs[i]\<close>: an index below zero counts from the end; outside the list it raises.\<close>

definition py_getitem :: "'a list \<Rightarrow> int \<Rightarrow> exn + 'a" where
  "py_getitem xs i =
     (if 0 \<le> i \<and> i < int (length xs) then Inr (xs ! nat i)
      else if i < 0 \<and> - int (length xs) \<le> i then Inr (xs ! nat (int (length xs) + i))
      else Inl IndexError)"

text \<open>\<open>range(a, b)\<close>.\<close>

definition py_range :: "int \<Rightarrow> int \<Rightarrow> int list" where
  "py_range a b = [a..b - 1]"

subsection \<open>Reading\<close>

text \<open>
  The loop of lines 119 to 128 over the encodings still to try, with the current value of
  \<open>data\<close> and the lines printed so far. A failed attempt leaves \<open>data\<close> as it was.
\<close>

fun read_loop ::
  "env \<Rightarrow> string \<Rightarrow> string list \<Rightarrow> string list list \<Rightarrow> string list
     \<Rightarrow> string list list \<times> string list"
where
  "read_loop e input_csv [] data out = (data, out)"
| "read_loop e input_csv (enc # encs) data out =
     (case read_rows e input_csv enc of
        Inl ex \<Rightarrow>
          read_loop e input_csv encs data (out @ [''Failed with '' @ enc @ '': '' @ exn_msg ex])
      | Inr d \<Rightarrow>
          if d \<noteq> [] then (d, out @ [''Successfully read with '' @ enc @ '' encoding''])
          else read_loop e input_csv encs d out)"

definition encodings_to_try :: "string \<Rightarrow> string list" where
  "encodings_to_try encoding = [encoding, ''latin1'', ''cp1252'', ''iso-8859-1'', ''utf-16'']"

subsection \<open>Normalising the rows\<close>

text \<open>Line 140, called on a list that is not empty.\<close>

definition ncols_of :: "string list list \<Rightarrow> nat" where
  "ncols_of data = (case map length data of [] \<Rightarrow> 0 | n # ns \<Rightarrow> fold max ns n)"

text \<open>Lines 144 to 150.\<close>

definition pad_rows :: "nat \<Rightarrow> string list list \<Rightarrow> string list list" where
  "pad_rows ncols data =
     map (\<lambda>row. if length row < ncols then row @ replicate (ncols - length row) [] else row) data"

subsection \<open>Header rows and data rows\<close>

text \<open>
  The loop of lines 154 to 157 over the indices still to visit, with \<open>header_rows\<close> as
  built so far; \<open>header_rows[-1]\<close> is its last element.
\<close>

fun header_loop ::
  "string list list \<Rightarrow> int list \<Rightarrow> string list list \<Rightarrow> exn + string list list"
where
  "header_loop data [] header_rows = Inr header_rows"
| "header_loop data (i # rest) header_rows =
     (case py_getitem data i of
        Inl ex \<Rightarrow> Inl ex
      | Inr r \<Rightarrow>
          (let escaped_row = map escape_latex r;
               prev_row = (if header_rows \<noteq> [] then Some (last header_rows) else None)
           in header_loop data rest (header_rows @ [process_header_row escaped_row prev_row])))"

text \<open>The loop of lines 161 and 162.\<close>

fun data_loop :: "string list list \<Rightarrow> int list \<Rightarrow> string list list \<Rightarrow> exn + string list list" where
  "data_loop data [] rows = Inr rows"
| "data_loop data (i # rest) rows =
     (case py_getitem data i of
        Inl ex \<Rightarrow> Inl ex
      | Inr r \<Rightarrow> data_loop data rest (rows @ [map escape_latex r]))"

subsection \<open>The document\<close>

text \<open>The separator of \<open>" & ".join(row)\<close> and the line written for one row.\<close>

definition cell_sep :: string where
  "cell_sep = '' & ''"

definition row_line :: "string list \<Rightarrow> string" where
  "row_line row = join cell_sep row @ '' '' @ [bsl, bsl] @ [nl]"

definition bottomrule_line :: string where
  "bottomrule_line = bsl # ''bottomrule'' @ [nl]"

definition toprule_line :: string where
  "toprule_line = bsl # ''toprule'' @ [nl]"

text \<open>
  The loops of lines 193 to 200 and 208 to 211, from index \<open>i\<close> on, where \<open>n\<close> is
  \<open>len(header_rows)\<close>: what each iteration writes.
\<close>

fun header_block :: "nat \<Rightarrow> nat \<Rightarrow> string list list \<Rightarrow> string list" where
  "header_block i n [] = []"
| "header_block i n (row # rest) =
     row_line row # (if int i = int n - 1 then [bottomrule_line] else [])
       @ header_block (i + 1) n rest"

text \<open>Line 183: every width is the float 2.0, which prints as \<open>2.0\<close>.\<close>

definition col_spec :: string where
  "col_spec = ''>{'' @ bsl # ''raggedright'' @ bsl # ''arraybackslash}p{2.0cm}''"

text \<open>The arguments of the calls of \<open>f.write\<close> of lines 172 to 231, in order.\<close>

definition document ::
  "bool \<Rightarrow> string \<Rightarrow> string \<Rightarrow> nat \<Rightarrow> string list list \<Rightarrow> string list list \<Rightarrow> string list"
where
  "document landscape caption label ncols header_rows rows =
     (if landscape then [bsl # ''begin{landscape}'' @ [nl]] else [])
     @ [''{'' @ bsl # ''footnotesize'' @ [nl],
        bsl # ''setlength'' @ bsl # ''LTleft{0pt}'' @ [nl],
        bsl # ''setlength'' @ bsl # ''LTright{0pt}'' @ [nl, nl],
        bsl # ''begin{longtable}[p]{'' @ [nl],
        ''    '' @ join (nl # ''    '') (replicate ncols col_spec) @ [nl],
        ''}'' @ [nl, nl],
        bsl # ''caption{'' @ caption @ ''}'' @ [nl],
        bsl # ''label{'' @ label @ ''}'' @ '' '' @ [bsl, bsl] @ [nl],
        toprule_line]
     @ header_block 0 (length header_rows) header_rows
     @ [bsl # ''endfirsthead'' @ [nl, nl],
        bsl # ''multicolumn{'' @ str_nat ncols @ ''}{c}{{'' @ bsl # ''bfseries '' @ bsl # ''tablename''
          @ bsl # '' '' @ bsl # ''thetable{} -- continued from previous page}} '' @ [bsl, bsl] @ [nl],
        toprule_line]
     @ header_block 0 (length header_rows) header_rows
     @ [bsl # ''endhead'' @ [nl, nl],
        bottomrule_line,
        bsl # ''multicolumn{'' @ str_nat ncols @ ''}{r}{{Continued on next page}} '' @ [bsl, bsl] @ [nl],
        bsl # ''endfoot'' @ [nl, nl],
        bottomrule_line,
        bsl # ''endlastfoot'' @ [nl, nl]]
     @ map row_line rows
     @ [bsl # ''end{longtable}'' @ [nl],
        ''}'' @ [nl]]
     @ (if landscape then [bsl # ''end{landscape}'' @ [nl]] else [])"

text \<open>The calls of \<open>f.write\<close>, numbered from \<open>k\<close>: the first exception ends them.\<close>

fun write_all :: "env \<Rightarrow> nat \<Rightarrow> string list \<Rightarrow> exn option" where
  "write_all e k [] = None"
| "write_all e k (chunk # rest) =
     (case write_output e k chunk of Some ex \<Rightarrow> Some ex | None \<Rightarrow> write_all e (k + 1) rest)"

text \<open>
  The \<open>with\<close> block of lines 170 to 231: the exception it raises, if any. The file is
  closed on the way out also when a write has raised, and the first exception is the one
  that counts for the \<open>except\<close> clause of line 235 unless closing raises another.
\<close>

definition write_document :: "env \<Rightarrow> string \<Rightarrow> string list \<Rightarrow> exn option" where
  "write_document e output_tex chunks =
     (case open_output e output_tex of
        Some ex \<Rightarrow> Some ex
      | None \<Rightarrow>
          (case write_all e 0 chunks of
             Some ex \<Rightarrow> (case close_output e of Some ex' \<Rightarrow> Some ex' | None \<Rightarrow> Some ex)
           | None \<Rightarrow> close_output e))"

subsection \<open>The function\<close>

text \<open>
  Lines 112 to 237. The result is the list of the lines printed and either the exception
  that leaves the function or the Boolean it returns.
\<close>

definition csv_to_latex_table ::
  "env \<Rightarrow> string \<Rightarrow> string \<Rightarrow> string \<Rightarrow> string \<Rightarrow> bool \<Rightarrow> int \<Rightarrow> string list \<times> (exn + bool)"
where
  "csv_to_latex_table e input_csv output_tex caption label landscape header_lines =
     (let encoding = detect_encoding e input_csv;
          out0 = [''Detected encoding: '' @ encoding];
          (data, out1) = read_loop e input_csv (encodings_to_try encoding) [] out0
      in if data = [] then (out1 @ [''Error: Could not read CSV data''], Inr False)
         else if int (length data) < header_lines then
           (out1 @ [''Error: Not enough rows for '' @ str_int header_lines @ '' header lines''],
            Inr False)
         else
           (let ncols = ncols_of data;
                out2 = out1 @ [''Detected '' @ str_nat ncols @ '' columns in CSV''];
                data = pad_rows ncols data
            in case header_loop data (py_range 0 header_lines) [] of
                 Inl ex \<Rightarrow> (out2, Inl ex)
               | Inr header_rows \<Rightarrow>
                   (case data_loop data (py_range header_lines (int (length data))) [] of
                      Inl ex \<Rightarrow> (out2, Inl ex)
                    | Inr rows \<Rightarrow>
                        (case write_document e output_tex
                                (document landscape caption label ncols header_rows rows) of
                           Some ex \<Rightarrow> (out2 @ [''Error writing LaTeX: '' @ exn_msg ex], Inr False)
                         | None \<Rightarrow> (out2, Inr True)))))"

section \<open>Predicates used in the statements\<close>

text \<open>
  A range all of whose indices are indices of blank cells of the row: the cell there is
  empty or is the marker of a missing value.
\<close>

definition blank_range :: "string list \<Rightarrow> int \<times> int \<Rightarrow> bool" where
  "blank_range row r =
     (\<forall>j. fst r \<le> j \<and> j \<le> snd r \<longrightarrow> 0 \<le> j \<and> j < int (length row) \<and> \<not> populated (row ! nat j))"

text \<open>The run of blank cells open at index \<open>i\<close>: every cell from its start up to \<open>i\<close> is blank.\<close>

definition open_run :: "string list \<Rightarrow> int \<Rightarrow> int option \<Rightarrow> bool" where
  "open_run row i start_idx =
     (case start_idx of
        None \<Rightarrow> True
      | Some s \<Rightarrow> 0 \<le> s \<and> (\<forall>j. s \<le> j \<and> j < i \<longrightarrow> \<not> populated (row ! nat j)))"

text \<open>
  The text that stands for one character once all the replacements have run, as
  the lemma \<open>apply_replacements_chars\<close> below derives it from the table: the braces of
  \<open>\textbackslash{}\<close> are themselves escaped.
\<close>

definition escaped_char :: "char \<Rightarrow> string" where
  "escaped_char c =
     (if c = bsl then bsl # ''textbackslash'' @ [bsl, CHR ''{'', bsl, CHR ''}'']
      else if c \<in> set ''&%$#_{}'' then [bsl, c]
      else if c = CHR ''~'' then bsl # ''textasciitilde{}''
      else if c = CHR ''^'' then bsl # ''textasciicircum{}''
      else if c = CHR ''<'' then bsl # ''textless{}''
      else if c = CHR ''>'' then bsl # ''textgreater{}''
      else if c = CHR ''['' then ''{[}''
      else if c = CHR '']'' then ''{]}''
      else [c])"

text \<open>
  The column separators of a line of the table: the ampersands that no backslash
  precedes. \<open>tabs_after p s\<close> counts them in \<open>s\<close> when \<open>p\<close> is the character before
  \<open>s\<close>; a line starts after a newline.
\<close>

fun tabs_after :: "char \<Rightarrow> string \<Rightarrow> nat" where
  "tabs_after p [] = 0"
| "tabs_after p (c # cs) = (if c = CHR ''&'' \<and> p \<noteq> bsl then 1 else 0) + tabs_after c cs"

definition count_tabs :: "string \<Rightarrow> nat" where
  "count_tabs s = tabs_after nl s"

section \<open>A sample table and a sample environment\<close>

text \<open>
  Three rows of unequal length, and an environment in which \<open>chardet\<close> finds no
  encoding, the file does not decode as UTF-8, every other encoding reads the three
  rows, and the output file is written without error.
\<close>

definition sample_rows :: "string list list" where
  "sample_rows = [[''Ref'', ''Predicted'', ''''], ['''', ''a'', ''b&c''], [''1'', ''NA'']]"

definition sample_env :: env where
  "sample_env =
     \<lparr>chardet_sample = (\<lambda>path. Inr None),
      read_rows = (\<lambda>path enc. if enc = ''utf-8'' then Inl (Raised ''invalid start byte'')
                                else Inr sample_rows),
      open_output = (\<lambda>path. None),
      write_output = (\<lambda>k chunk. None),
      close_output = None\<rparr>"

section \<open>Properties of escape_latex\<close>

text \<open>Whitespace around a text that neither starts nor ends with whitespace is what \<open>strip\<close> drops.\<close>

lemma strip_padded:
  assumes l: "\<forall>c\<in>set l. isspace c" and r: "\<forall>c\<in>set r. isspace c"
    and t: "t = [] \<or> (\<not> isspace (hd t) \<and> \<not> isspace (last t))"
  shows "strip (l @ t @ r) = t"
proof (cases "t = []")
  case True
  have "\<forall>c\<in>set (l @ r). isspace c" using l r by auto
  then have "dropWhile isspace (l @ r) = []" by (simp only: dropWhile_eq_Nil_conv)
  then show ?thesis unfolding strip_def True by (simp only: append_Nil rev.simps dropWhile.simps)
next
  case False
  with t have h: "\<not> isspace (hd t)" and e: "\<not> isspace (last t)" by simp_all
  have 1: "dropWhile isspace (l @ t @ r) = t @ r"
    using l h False by (cases t) (simp_all add: dropWhile_append)
  have 2: "dropWhile isspace (rev r @ rev t) = rev t"
    using r e False by (cases "rev t") (simp_all add: dropWhile_append last_rev hd_rev)
  show ?thesis by (simp add: strip_def 1 2)
qed

text \<open>
  C6: a value whose string form, once trimmed, is one of the nine missing values is
  returned as the marker \<open>\textemdash\<close>, with nothing escaped in it.
\<close>

theorem escape_latex_missing_value:
  assumes "strip (py_str v) \<in> {'''', ''NA'', ''N/A'', ''NaN'', ''None'', [CHR 0x5C], ''//'', ''---'', ''_''}"
  shows "escape_latex_val v = CHR 0x5C # ''textemdash''"
  using assms by (simp add: escape_latex_val_def escape_latex_def missing_values_def textemdash_def bsl_def)

theorem escape_latex_missing_value_witness:
  "strip (py_str (Str ''  N/A ''))
     \<in> {'''', ''NA'', ''N/A'', ''NaN'', ''None'', [CHR 0x5C], ''//'', ''---'', ''_''}
   \<and> escape_latex_val (Str ''  N/A '') = CHR 0x5C # ''textemdash''
   \<and> escape_latex_val NoneV = CHR 0x5C # ''textemdash''"
  using escape_latex_missing_value [of "Str ''  N/A ''"] escape_latex_missing_value [of NoneV]
  by (simp add: strip_def isspace_def)

text \<open>The same with the whitespace written out: any whitespace on either side of a missing value.\<close>

lemma escape_latex_padded_missing:
  assumes "\<forall>c\<in>set l. isspace c" and "\<forall>c\<in>set r. isspace c"
    and "t \<in> set missing_values"
  shows "escape_latex (l @ t @ r) = textemdash"
proof -
  from assms(3) have "t = [] \<or> (\<not> isspace (hd t) \<and> \<not> isspace (last t))"
    by (auto simp: missing_values_def isspace_def bsl_def)
  from strip_padded[OF assms(1,2) this] assms(3) show ?thesis by (simp add: escape_latex_def)
qed

text \<open>
  C7: a single slash is returned as it is, two slashes give the marker of a missing
  value, and every input that trims to a single slash is returned as \<open>/\<close>.
\<close>

theorem escape_latex_slash:
  "escape_latex ''/'' = ''/''
   \<and> escape_latex ''//'' = CHR 0x5C # ''textemdash''
   \<and> (strip s = ''/'' \<longrightarrow> escape_latex s = ''/'')"
  by (simp add: escape_latex_def missing_values_def textemdash_def bsl_def strip_def isspace_def)

theorem escape_latex_slash_witness:
  "strip '' / '' = ''/'' \<and> escape_latex '' / '' = ''/''"
  using escape_latex_slash [of "'' / ''"] by (simp add: strip_def isspace_def)

text \<open>
  C5: the claim that no later replacement touches the text an earlier one has inserted.
  Evaluated at \<open>a\b\<close>: the text \<open>\textbackslash{}\<close> inserted for the backslash by the
  first pair has its two braces rewritten by the seventh and the eighth pair, so the
  result is \<open>a\textbackslash\{\}b\<close>. The ampersand alone is escaped once.
\<close>

theorem escape_latex_backslash_form_broken:
  "escape_latex (''a'' @ [CHR 0x5C] @ ''b'')
     = ''a'' @ CHR 0x5C # ''textbackslash'' @ CHR 0x5C # ''{'' @ CHR 0x5C # ''}b''
   \<and> escape_latex ''&'' = [CHR 0x5C, CHR ''&'']"
  by (simp add: escape_latex_def missing_values_def textemdash_def bsl_def strip_def isspace_def
      replacements_def replace_def)

section \<open>Properties of process_header_row\<close>

text \<open>
  The scan keeps this invariant: every collected range, and the run still open, covers
  indices of blank cells only.
\<close>

lemma find_subgroups_blank:
  assumes "find_subgroups i rest rs st = (rs', st')"
    and "i = int (length pre)" and "row = pre @ rest"
    and "\<forall>r\<in>set rs. blank_range row r" and "open_run row i st"
  shows "(\<forall>r\<in>set rs'. blank_range row r) \<and> open_run row (int (length row)) st'"
  using assms
proof (induction rest arbitrary: i pre rs st)
  case Nil
  then show ?case by simp
next
  case (Cons cell rest)
  have row: "row = (pre @ [cell]) @ rest" and i': "i + 1 = int (length (pre @ [cell]))"
    using Cons.prems by simp_all
  have cell: "row ! nat i = cell" using Cons.prems by (simp add: nth_append)
  have ilt: "i < int (length row)" "0 \<le> i" using Cons.prems by simp_all
  show ?case
  proof (cases "populated cell")
    case True
    show ?thesis
    proof (cases st)
      case None
      with True Cons.prems(1) have "find_subgroups (i + 1) rest rs None = (rs', st')" by simp
      from Cons.IH[OF this i' row Cons.prems(4)] show ?thesis by (simp add: open_run_def)
    next
      case (Some s)
      with True Cons.prems(1)
      have run: "find_subgroups (i + 1) rest (rs @ [(s, i - 1)]) None = (rs', st')" by simp
      have "blank_range row (s, i - 1)"
        using Cons.prems(5) Some ilt by (auto simp: blank_range_def open_run_def)
      with Cons.prems(4) have "\<forall>r\<in>set (rs @ [(s, i - 1)]). blank_range row r" by simp
      from Cons.IH[OF run i' row this] show ?thesis by (simp add: open_run_def)
    qed
  next
    case False
    show ?thesis
    proof (cases st)
      case None
      with False Cons.prems(1) have run: "find_subgroups (i + 1) rest rs (Some i) = (rs', st')" by simp
      have "open_run row (i + 1) (Some i)"
        using False cell ilt by (auto simp: open_run_def)
      from Cons.IH[OF run i' row Cons.prems(4) this] show ?thesis .
    next
      case (Some s)
      with False Cons.prems(1) have run: "find_subgroups (i + 1) rest rs (Some s) = (rs', st')" by simp
      have s0: "0 \<le> s" using Cons.prems(5) Some by (simp add: open_run_def)
      have "\<not> populated (row ! nat j)" if j: "s \<le> j \<and> j < i + 1" for j
      proof (cases "j = i")
        case True with False cell show ?thesis by simp
      next
        case False
        with j have "s \<le> j \<and> j < i" by simp
        with Cons.prems(5) Some show ?thesis by (simp add: open_run_def)
      qed
      with s0 have "open_run row (i + 1) (Some s)" by (simp add: open_run_def)
      from Cons.IH[OF run i' row Cons.prems(4) this] show ?thesis .
    qed
  qed
qed

lemma subgroup_ranges_blank: "\<forall>r\<in>set (subgroup_ranges_of row). blank_range row r"
proof -
  obtain rs st where fs: "find_subgroups 0 row [] None = (rs, st)" by (cases "find_subgroups 0 row [] None")
  have inv: "(\<forall>r\<in>set rs. blank_range row r) \<and> open_run row (int (length row)) st"
    by (rule find_subgroups_blank[OF fs, of "[]"]) (simp_all add: open_run_def)
  show ?thesis
  proof (cases st)
    case None
    with fs inv show ?thesis by (simp add: subgroup_ranges_of_def)
  next
    case (Some s)
    with inv have "blank_range row (s, int (length row) - 1)"
      by (auto simp: blank_range_def open_run_def)
    with fs inv Some show ?thesis by (simp add: subgroup_ranges_of_def)
  qed
qed

lemma populated_not_in_subgroup:
  assumes "\<forall>r\<in>set rs. blank_range row r" and "0 \<le> i" and "i < int (length row)" and "populated (row ! nat i)"
  shows "\<not> in_subgroup rs i"
  using assms by (auto simp: in_subgroup_def list_ex_iff blank_range_def)

lemma process_cells_plain:
  assumes "\<forall>r\<in>set rs. blank_range row r" and "row = pre @ rest" and "i = int (length pre)"
  shows "process_cells rs prev_row i rest = map (\<lambda>cell. if populated cell then cell else '''') rest"
  using assms(2,3)
proof (induction rest arbitrary: pre i)
  case Nil
  then show ?case by simp
next
  case (Cons cell rest)
  have tl: "process_cells rs prev_row (i + 1) rest = map (\<lambda>cell. if populated cell then cell else '''') rest"
    by (rule Cons.IH[of "pre @ [cell]"]) (use Cons.prems in simp_all)
  have cell: "row ! nat i = cell" using Cons.prems by (simp add: nth_append)
  have "populated cell \<Longrightarrow> \<not> in_subgroup rs i"
    using populated_not_in_subgroup[OF assms(1), of i] cell Cons.prems by simp
  then have "process_cell rs prev_row i cell = [if populated cell then cell else '''']"
    by (simp add: process_cell_def)
  with tl show ?case by simp
qed

text \<open>So the result is the row itself with every blank cell replaced by the empty string.\<close>

lemma process_header_row_plain:
  "process_header_row row prev_row = map (\<lambda>cell. if populated cell then cell else '''') row"
  unfolding process_header_row_def
  by (rule process_cells_plain[OF subgroup_ranges_blank, of _ "[]"]) simp_all

text \<open>
  C4: for every row and every previous row, present or not, no partial rule is emitted.
  The ranges of the scan hold indices of blank cells only, so no populated cell lies in
  one; the result has as many elements as the row, each the populated cell unchanged
  or the empty string.
\<close>

theorem process_header_row_never_emits_rule:
  "process_header_row row prev_row = map (\<lambda>cell. if populated cell then cell else '''') row
   \<and> length (process_header_row row prev_row) = length row
   \<and> (\<forall>r\<in>set (subgroup_ranges_of row). blank_range row r)
   \<and> (\<forall>i<length row. populated (row ! i) \<longrightarrow> \<not> in_subgroup (subgroup_ranges_of row) (int i))"
proof -
  have "\<not> in_subgroup (subgroup_ranges_of row) (int i)" if "i < length row" "populated (row ! i)" for i
    using populated_not_in_subgroup[OF subgroup_ranges_blank, of "int i" row] that by simp
  then show ?thesis
    by (simp add: process_header_row_plain subgroup_ranges_blank)
qed

theorem process_header_row_never_emits_rule_witness:
  "process_header_row [''Ref'', '''', ''a'', textemdash] (Some [''x'']) = [''Ref'', '''', ''a'', '''']
   \<and> \<not> in_subgroup (subgroup_ranges_of [''Ref'', '''', ''a'', textemdash]) 2"
proof -
  let ?row = "[''Ref'', '''', ''a'', textemdash]"
  note all = process_header_row_never_emits_rule [of ?row "Some [''x'']"]
  from all have 1: "process_header_row ?row (Some [''x'']) = [''Ref'', '''', ''a'', '''']"
    by (simp add: populated_def textemdash_def)
  from all have "\<forall>i<length ?row. populated (?row ! i) \<longrightarrow> \<not> in_subgroup (subgroup_ranges_of ?row) (int i)"
    by blast
  from this[rule_format, of 2] have 2: "\<not> in_subgroup (subgroup_ranges_of ?row) 2"
    by (simp add: populated_def textemdash_def)
  from 1 2 show ?thesis by simp
qed

text \<open>
  C2: the claim that in the row \<open>A, blank, blank, B\<close> with no previous row the cell
  \<open>B\<close> gets one partial rule over the columns 2 to 3. Evaluated: the scan finds the range
  \<open>(1, 2)\<close>, the cell \<open>B\<close> at index 3 is outside it, and the result holds no rule.
\<close>

theorem header_example_no_rule:
  "subgroup_ranges_of [''A'', '''', '''', ''B''] = [(1, 2)]
   \<and> process_header_row [''A'', '''', '''', ''B''] None = [''A'', '''', '''', ''B'']"
  by (simp add: process_header_row_def subgroup_ranges_of_def populated_def textemdash_def
      process_cell_def in_subgroup_def prev_has_content_def)

text \<open>
  C3: the claim that in the row \<open>blank, X, Y\<close> under an all-blank previous row the cell
  \<open>X\<close> gets a partial rule over the columns 1 to 1. Evaluated: the scan finds the range
  \<open>(0, 0)\<close>, the previous row has no content at index 1, and the result holds no rule.
\<close>

theorem header_leading_blank_no_rule:
  "subgroup_ranges_of ['''', ''X'', ''Y''] = [(0, 0)]
   \<and> prev_has_content (Some ['''', '''', '''']) 1 = False
   \<and> process_header_row ['''', ''X'', ''Y''] (Some ['''', '''', '''']) = ['''', ''X'', ''Y'']"
  by (simp add: process_header_row_def subgroup_ranges_of_def populated_def textemdash_def
      process_cell_def in_subgroup_def prev_has_content_def)

text \<open>
  C1: the claim that a populated cell of a subgroup with a blank cell above it gets the
  partial rule of that subgroup. Evaluated at the row \<open>blank, blank, a, b\<close> under the
  previous row \<open>Group, blank, blank, blank\<close>: the scan finds the range \<open>(0, 1)\<close>, the cell
  \<open>a\<close> closes it and has nothing above, and the result holds no rule.
\<close>

theorem header_subgroup_no_rule:
  "subgroup_ranges_of [textemdash, textemdash, ''a'', ''b''] = [(0, 1)]
   \<and> prev_has_content (Some [''Group'', '''', '''', '''']) 2 = False
   \<and> process_header_row [textemdash, textemdash, ''a'', ''b''] (Some [''Group'', '''', '''', ''''])
       = ['''', '''', ''a'', ''b'']"
  by (simp add: process_header_row_def subgroup_ranges_of_def populated_def textemdash_def
      process_cell_def in_subgroup_def prev_has_content_def)

section \<open>Every character is escaped on its own\<close>

text \<open>
  Each pair of the table replaces one character, so the whole loop maps every
  character of the input to a text of its own, whatever stands around it.
\<close>

lemma replace_char:
  "replace [c] new s = concat (map (\<lambda>x. if x = c then new else [x]) s)"
  by (induction s) (simp_all add: replace_def)

lemma concat_map_twice:
  "concat (map g (concat (map f s))) = concat (map (\<lambda>x. concat (map g (f x))) s)"
  by (induction s) simp_all

lemma replace_char_concat:
  "replace [c] new (concat (map f s)) = concat (map (\<lambda>x. replace [c] new (f x)) s)"
  by (simp add: replace_char concat_map_twice)

lemma apply_replacements_concat:
  assumes "\<forall>(orig, repl)\<in>set rs. length orig = 1"
  shows "apply_replacements rs (concat (map f s)) = concat (map (\<lambda>x. apply_replacements rs (f x)) s)"
  using assms
proof (induction rs arbitrary: f)
  case Nil
  then show ?case by simp
next
  case (Cons r rs)
  obtain orig repl where r: "r = (orig, repl)" by (cases r)
  with Cons.prems obtain c where c: "orig = [c]" by (cases orig) auto
  from Cons.prems have "\<forall>(orig, repl)\<in>set rs. length orig = 1" by simp
  from Cons.IH[OF this] show ?case by (simp add: r c replace_char_concat)
qed

lemma escape_one_char: "apply_replacements replacements [x] = escaped_char x"
  by (simp add: replacements_def replace_def escaped_char_def bsl_def)

lemma apply_replacements_chars:
  "apply_replacements replacements s = concat (map escaped_char s)"
proof -
  have "\<forall>(orig, repl)\<in>set replacements. length orig = 1" by (simp add: replacements_def)
  from apply_replacements_concat[OF this, of "\<lambda>x. [x]" s] show ?thesis
    by (simp add: escape_one_char)
qed

lemma escape_latex_chars:
  assumes "strip s \<notin> set missing_values" and "strip s \<noteq> ''/''"
  shows "escape_latex s = concat (map escaped_char s)"
  using assms by (simp add: escape_latex_def apply_replacements_chars)

section \<open>Properties of csv_to_latex_table\<close>

text \<open>Inside the table no index raises, and the two loops return one row for each index.\<close>

lemma py_getitem_inside:
  "0 \<le> i \<Longrightarrow> i < int (length xs) \<Longrightarrow> py_getitem xs i = Inr (xs ! nat i)"
  by (simp add: py_getitem_def)

lemma header_loop_inside:
  assumes "\<forall>i\<in>set idxs. 0 \<le> i \<and> i < int (length data)"
  shows "header_loop data idxs header_rows =
           Inr (header_rows @ map (\<lambda>i. process_header_row (map escape_latex (data ! nat i)) None) idxs)"
  using assms
proof (induction idxs arbitrary: header_rows)
  case Nil
  then show ?case by simp
next
  case (Cons i idxs)
  then have "py_getitem data i = Inr (data ! nat i)" by (simp add: py_getitem_inside)
  moreover have "process_header_row r p = process_header_row r None" for r p
    by (simp add: process_header_row_plain)
  ultimately show ?case using Cons by (simp add: Let_def)
qed

lemma data_loop_inside:
  assumes "\<forall>i\<in>set idxs. 0 \<le> i \<and> i < int (length data)"
  shows "data_loop data idxs rows = Inr (rows @ map (\<lambda>i. map escape_latex (data ! nat i)) idxs)"
  using assms
proof (induction idxs arbitrary: rows)
  case Nil
  then show ?case by simp
next
  case (Cons i idxs)
  then have "py_getitem data i = Inr (data ! nat i)" by (simp add: py_getitem_inside)
  with Cons show ?case by simp
qed

lemma py_range_nth: "a + int k < b \<Longrightarrow> py_range a b ! k = a + int k"
  by (simp add: py_range_def)

lemma py_range_length: "length (py_range a b) = nat (b - a)"
  by (simp add: py_range_def)

lemma py_range_set: "set (py_range a b) = {i. a \<le> i \<and> i < b}"
  by (auto simp: py_range_def)

text \<open>
  C8: for every table, normalised or not, and every header index \<open>i\<close> from 1 up to the
  number of header lines, the \<open>i\<close>-th header row the loop builds is
  \<open>process_header_row\<close> of the escaped \<open>i\<close>-th row with the escaped previous row as
  \<open>prev_row\<close>, and it is also what the code computes, with the formatted previous row.
\<close>

theorem header_rows_prev_escaped:
  assumes "header_lines \<le> int (length data)" and "1 \<le> i" and "i < header_lines"
  shows "\<exists>header_rows. header_loop data (py_range 0 header_lines) [] = Inr header_rows
           \<and> length header_rows = nat header_lines
           \<and> header_rows ! nat i
               = process_header_row (map escape_latex (data ! nat i))
                   (Some (map escape_latex (data ! nat (i - 1))))
           \<and> header_rows ! nat i
               = process_header_row (map escape_latex (data ! nat i))
                   (Some (header_rows ! nat (i - 1)))"
proof -
  let ?hs = "map (\<lambda>i. process_header_row (map escape_latex (data ! nat i)) None) (py_range 0 header_lines)"
  have inside: "\<forall>j\<in>set (py_range 0 header_lines). 0 \<le> j \<and> j < int (length data)"
    using assms(1) by (simp add: py_range_set)
  have run: "header_loop data (py_range 0 header_lines) [] = Inr ?hs"
    using header_loop_inside[OF inside, of "[]"] by simp
  have len: "length ?hs = nat header_lines" by (simp add: py_range_length)
  have "nat i < length (py_range 0 header_lines)" using assms by (simp add: py_range_length)
  then have "?hs ! nat i = process_header_row (map escape_latex (data ! nat (py_range 0 header_lines ! nat i))) None"
    by simp
  moreover have "py_range 0 header_lines ! nat i = i"
    using py_range_nth[of 0 "nat i" header_lines] assms by simp
  ultimately have nth: "?hs ! nat i = process_header_row (map escape_latex (data ! nat i)) None"
    by simp
  have any: "process_header_row r None = process_header_row r p" for r p
    by (simp add: process_header_row_plain)
  from run len nth any show ?thesis by (metis (no_types, lifting))
qed

theorem header_rows_prev_escaped_witness:
  "(2::int) \<le> int (length sample_rows) \<and> (1::int) \<le> 1 \<and> (1::int) < 2
   \<and> (\<exists>header_rows. header_loop sample_rows (py_range 0 2) [] = Inr header_rows
         \<and> header_rows ! nat 1
             = process_header_row (map escape_latex (sample_rows ! nat 1))
                 (Some (map escape_latex (sample_rows ! nat (1 - 1)))))"
proof -
  have a: "(2::int) \<le> int (length sample_rows)" by (simp add: sample_rows_def)
  from header_rows_prev_escaped[OF a, of 1] show ?thesis using a by auto
qed

text \<open>
  No escaped cell holds a column separator: every ampersand of the result of
  \<open>escape_latex\<close> has a backslash before it. A line of \<open>n\<close> such cells has one separator
  less than cells.
\<close>

lemma tabs_after_append:
  "tabs_after p (a @ b) = tabs_after p a + tabs_after (last (p # a)) b"
  by (induction a arbitrary: p) simp_all

lemma tabs_escaped_char: "tabs_after p (escaped_char c) = 0"
  by (simp add: escaped_char_def bsl_def)

lemma tabs_escaped_chars: "tabs_after p (concat (map escaped_char s)) = 0"
  by (induction s arbitrary: p) (simp_all add: tabs_after_append tabs_escaped_char)

lemma tabs_escape_latex: "tabs_after p (escape_latex s) = 0"
  by (simp add: escape_latex_def apply_replacements_chars tabs_escaped_chars textemdash_def bsl_def)

lemma tabs_join:
  assumes "\<forall>cell\<in>set row. \<forall>p. tabs_after p cell = 0"
  shows "tabs_after p (join cell_sep row) = length row - 1"
  using assms
proof (induction cell_sep row arbitrary: p rule: join.induct)
  case (3 x y ys)
  then have "tabs_after q (join cell_sep (y # ys)) = length (y # ys) - 1" for q by simp
  moreover have "tabs_after q cell_sep = 1" for q by (simp add: cell_sep_def bsl_def)
  moreover have "last (q # cell_sep) = CHR '' ''" for q by (simp add: cell_sep_def)
  moreover have "tabs_after p x = 0" using 3 by simp
  ultimately show ?case by (simp add: tabs_after_append del: last.simps)
qed simp_all

lemma tabs_row_line:
  assumes "\<forall>cell\<in>set row. \<forall>p. tabs_after p cell = 0"
  shows "count_tabs (row_line row) = length row - 1"
  by (simp add: count_tabs_def row_line_def tabs_after_append tabs_join[OF assms] bsl_def nl_def
      del: last.simps)

lemma tabs_escaped_row: "count_tabs (row_line (map escape_latex r)) = length r - 1"
  using tabs_row_line[of "map escape_latex r"] by (simp add: tabs_escape_latex)

lemma tabs_header_row:
  "count_tabs (row_line (process_header_row (map escape_latex r) prev_row)) = length r - 1"
proof -
  have "\<forall>cell\<in>set (process_header_row (map escape_latex r) prev_row). \<forall>p. tabs_after p cell = 0"
    by (auto simp: process_header_row_plain tabs_escape_latex)
  from tabs_row_line[OF this] show ?thesis by (simp add: process_header_row_plain)
qed

text \<open>The header block is one line for each header row, then the bottom rule after the last.\<close>

lemma header_block_lines:
  assumes "i + length hs = n"
  shows "header_block i n hs = map row_line hs @ (if hs = [] then [] else [bottomrule_line])"
  using assms
proof (induction hs arbitrary: i)
  case Nil
  then show ?case by simp
next
  case (Cons h hs)
  then have "header_block (i + 1) n hs = map row_line hs @ (if hs = [] then [] else [bottomrule_line])"
    by simp
  moreover have "(int i = int n - 1) = (hs = [])" using Cons.prems by auto
  ultimately show ?case by simp
qed

lemma ncols_of_Max: "data \<noteq> [] \<Longrightarrow> ncols_of data = Max (length ` set data)"
  by (cases data) (simp_all add: ncols_of_def Max.set_eq_fold[symmetric])

lemma pad_rows_nth:
  assumes "k < length data"
  shows "pad_rows (ncols_of data) data ! k = data ! k @ replicate (ncols_of data - length (data ! k)) ''''
         \<and> length (pad_rows (ncols_of data) data ! k) = ncols_of data"
proof -
  from assms have ne: "data \<noteq> []" by auto
  have "length (data ! k) \<le> Max (length ` set data)" using assms by simp
  then have "length (data ! k) \<le> ncols_of data" by (simp add: ncols_of_Max[OF ne])
  with assms show ?thesis by (simp add: pad_rows_def)
qed

text \<open>
  C9: \<open>ncols\<close> is the greatest length of a row; after the padding every row is the
  original row followed by empty fields and has \<open>ncols\<close> fields; the two loops return,
  every header row and every data row has \<open>ncols\<close> cells, and the line written for it
  is these cells joined by \<open>" & "\<close>, with \<open>ncols - 1\<close> column separators.
\<close>

theorem rows_normalized_lines_full:
  assumes "data \<noteq> []" and "0 \<le> header_lines" and "header_lines \<le> int (length data)"
  shows "ncols_of data = Max (length ` set data)
       \<and> length (pad_rows (ncols_of data) data) = length data
       \<and> (\<forall>k<length data.
             pad_rows (ncols_of data) data ! k
               = data ! k @ replicate (ncols_of data - length (data ! k)) ''''
             \<and> length (pad_rows (ncols_of data) data ! k) = ncols_of data)
       \<and> (\<exists>header_rows rows.
             header_loop (pad_rows (ncols_of data) data) (py_range 0 header_lines) [] = Inr header_rows
           \<and> data_loop (pad_rows (ncols_of data) data)
                (py_range header_lines (int (length (pad_rows (ncols_of data) data)))) [] = Inr rows
           \<and> length header_rows = nat header_lines
           \<and> length rows = length data - nat header_lines
           \<and> header_block 0 (length header_rows) header_rows
               = map row_line header_rows @ (if header_rows = [] then [] else [bottomrule_line])
           \<and> (\<forall>r\<in>set header_rows \<union> set rows.
                 length r = ncols_of data \<and> count_tabs (row_line r) = ncols_of data - 1))"
proof -
  let ?n = "ncols_of data"
  let ?p = "pad_rows ?n data"
  let ?hs = "map (\<lambda>i. process_header_row (map escape_latex (?p ! nat i)) None) (py_range 0 header_lines)"
  let ?rows = "map (\<lambda>i. map escape_latex (?p ! nat i)) (py_range header_lines (int (length ?p)))"
  have lenp: "length ?p = length data" by (simp add: pad_rows_def)
  have in1: "\<forall>j\<in>set (py_range 0 header_lines). 0 \<le> j \<and> j < int (length ?p)"
    using assms(3) by (simp add: py_range_set lenp)
  have in2: "\<forall>j\<in>set (py_range header_lines (int (length ?p))). 0 \<le> j \<and> j < int (length ?p)"
    using assms(2) by (simp add: py_range_set)
  have h: "header_loop ?p (py_range 0 header_lines) [] = Inr ?hs"
    using header_loop_inside[OF in1, of "[]"] by simp
  have d: "data_loop ?p (py_range header_lines (int (length ?p))) [] = Inr ?rows"
    using data_loop_inside[OF in2, of "[]"] by simp
  have lh: "length ?hs = nat header_lines" by (simp add: py_range_length)
  have lr: "length ?rows = length data - nat header_lines"
    using assms(2) by (simp add: py_range_length lenp nat_diff_distrib')
  have row: "length (?p ! nat j) = ?n" if "0 \<le> j" "j < int (length data)" for j
  proof -
    from that have "nat j < length data" by simp
    from pad_rows_nth[OF this] show ?thesis by blast
  qed
  have hrow: "length r = ?n \<and> count_tabs (row_line r) = ?n - 1" if "r \<in> set ?hs" for r
  proof -
    from that obtain j where j: "j \<in> set (py_range 0 header_lines)"
      and r: "r = process_header_row (map escape_latex (?p ! nat j)) None" by auto
    from j in1 have "length (?p ! nat j) = ?n" using row lenp by simp
    then show ?thesis unfolding r by (simp add: tabs_header_row) (simp add: process_header_row_plain)
  qed
  have drow: "length r = ?n \<and> count_tabs (row_line r) = ?n - 1" if "r \<in> set ?rows" for r
  proof -
    from that obtain j where j: "j \<in> set (py_range header_lines (int (length ?p)))"
      and r: "r = map escape_latex (?p ! nat j)" by auto
    from j in2 have "length (?p ! nat j) = ?n" using row lenp by simp
    then show ?thesis unfolding r by (simp add: tabs_escaped_row)
  qed
  have blk: "header_block 0 (length ?hs) ?hs = map row_line ?hs @ (if ?hs = [] then [] else [bottomrule_line])"
    by (rule header_block_lines) simp
  have all: "\<forall>r\<in>set ?hs \<union> set ?rows. length r = ?n \<and> count_tabs (row_line r) = ?n - 1"
    using hrow drow by blast
  have ex: "\<exists>header_rows rows.
             header_loop ?p (py_range 0 header_lines) [] = Inr header_rows
           \<and> data_loop ?p (py_range header_lines (int (length ?p))) [] = Inr rows
           \<and> length header_rows = nat header_lines
           \<and> length rows = length data - nat header_lines
           \<and> header_block 0 (length header_rows) header_rows
               = map row_line header_rows @ (if header_rows = [] then [] else [bottomrule_line])
           \<and> (\<forall>r\<in>set header_rows \<union> set rows.
                 length r = ?n \<and> count_tabs (row_line r) = ?n - 1)"
    using h d lh lr blk all by blast
  show ?thesis
    using ncols_of_Max[OF assms(1)] lenp pad_rows_nth[of _ data] ex by blast
qed

theorem rows_normalized_lines_full_witness:
  "sample_rows \<noteq> [] \<and> (0::int) \<le> 2 \<and> (2::int) \<le> int (length sample_rows)
   \<and> ncols_of sample_rows = 3
   \<and> pad_rows 3 sample_rows ! 2 = [''1'', ''NA'', '''']
   \<and> (\<exists>header_rows rows.
         header_loop (pad_rows (ncols_of sample_rows) sample_rows) (py_range 0 2) [] = Inr header_rows
       \<and> data_loop (pad_rows (ncols_of sample_rows) sample_rows)
            (py_range 2 (int (length (pad_rows (ncols_of sample_rows) sample_rows)))) [] = Inr rows
       \<and> (\<forall>r\<in>set header_rows \<union> set rows.
             length r = ncols_of sample_rows \<and> count_tabs (row_line r) = ncols_of sample_rows - 1))"
proof -
  have a: "sample_rows \<noteq> []" and c: "(2::int) \<le> int (length sample_rows)"
    by (simp_all add: sample_rows_def)
  have n: "ncols_of sample_rows = 3" by (simp add: sample_rows_def ncols_of_def)
  have p: "pad_rows 3 sample_rows ! 2 = [''1'', ''NA'', '''']"
    by (simp add: sample_rows_def pad_rows_def)
  from rows_normalized_lines_full[OF a _ c] a c n p show ?thesis by auto
qed

text \<open>The loop over the encodings ends with no rows exactly when no attempt gave any.\<close>

lemma read_loop_empty_iff:
  "fst (read_loop e input_csv encs [] out) = []
     \<longleftrightarrow> (\<forall>enc\<in>set encs. \<forall>d. read_rows e input_csv enc = Inr d \<longrightarrow> d = [])"
proof (induction encs arbitrary: out)
  case Nil
  then show ?case by simp
next
  case (Cons enc encs)
  show ?case
  proof (cases "read_rows e input_csv enc")
    case (Inl ex)
    then show ?thesis using Cons.IH by simp
  next
    case (Inr d)
    then show ?thesis using Cons.IH by (cases "d = []") auto
  qed
qed

lemma loops_return:
  assumes "0 \<le> header_lines" and "header_lines \<le> int (length data)"
  shows "\<exists>header_rows rows.
           header_loop data (py_range 0 header_lines) [] = Inr header_rows
         \<and> data_loop data (py_range header_lines (int (length data))) [] = Inr rows"
proof -
  have "\<forall>j\<in>set (py_range 0 header_lines). 0 \<le> j \<and> j < int (length data)"
    using assms(2) by (simp add: py_range_set)
  from header_loop_inside[OF this, of "[]"]
  obtain hs where h: "header_loop data (py_range 0 header_lines) [] = Inr hs" by simp
  have "\<forall>j\<in>set (py_range header_lines (int (length data))). 0 \<le> j \<and> j < int (length data)"
    using assms(1) by (simp add: py_range_set)
  from data_loop_inside[OF this, of "[]"]
  obtain rows where "data_loop data (py_range header_lines (int (length data))) [] = Inr rows" by simp
  with h show ?thesis by blast
qed

text \<open>When no write raises, the whole document is written.\<close>

lemma write_all_ok: "\<forall>k chunk. write_output e k chunk = None \<Longrightarrow> write_all e k chunks = None"
  by (induction chunks arbitrary: k) simp_all

text \<open>
  C10: with a number of header lines that is not negative, no exception leaves
  \<open>csv_to_latex_table\<close>. It returns \<open>False\<close> exactly when no encoding gave a row, or the
  rows are fewer than the header lines, or opening, writing or closing the output
  raised; then the last line printed is the diagnostic. Otherwise it returns \<open>True\<close>.
\<close>

theorem csv_to_latex_table_returns:
  assumes "0 \<le> header_lines"
  shows "\<exists>out b data.
           csv_to_latex_table e input_csv output_tex caption label landscape header_lines = (out, Inr b)
         \<and> data = fst (read_loop e input_csv (encodings_to_try (detect_encoding e input_csv)) []
                         [''Detected encoding: '' @ detect_encoding e input_csv])
         \<and> (data = [] \<longleftrightarrow>
              (\<forall>enc\<in>set (encodings_to_try (detect_encoding e input_csv)).
                 \<forall>d. read_rows e input_csv enc = Inr d \<longrightarrow> d = []))
         \<and> (b = False \<longleftrightarrow>
                data = []
              \<or> int (length data) < header_lines
              \<or> (\<exists>header_rows rows.
                    header_loop (pad_rows (ncols_of data) data) (py_range 0 header_lines) [] = Inr header_rows
                  \<and> data_loop (pad_rows (ncols_of data) data)
                       (py_range header_lines (int (length (pad_rows (ncols_of data) data)))) [] = Inr rows
                  \<and> write_document e output_tex
                       (document landscape caption label (ncols_of data) header_rows rows) \<noteq> None))
         \<and> (b = False \<longrightarrow> take 5 (last out) = ''Error'')"
proof -
  let ?enc = "detect_encoding e input_csv"
  let ?rl = "read_loop e input_csv (encodings_to_try ?enc) [] [''Detected encoding: '' @ ?enc]"
  obtain data out1 where rl: "?rl = (data, out1)" by (cases ?rl)
  then have data: "data = fst ?rl" by simp
  have empty: "data = [] \<longleftrightarrow>
      (\<forall>enc\<in>set (encodings_to_try ?enc). \<forall>d. read_rows e input_csv enc = Inr d \<longrightarrow> d = [])"
    unfolding data by (rule read_loop_empty_iff)
  let ?p = "pad_rows (ncols_of data) data"
  have lenp: "length ?p = length data" by (simp add: pad_rows_def)
  show ?thesis
  proof (cases "data = []")
    case True
    with rl have eq: "csv_to_latex_table e input_csv output_tex caption label landscape header_lines
        = (out1 @ [''Error: Could not read CSV data''], Inr False)"
      by (simp add: csv_to_latex_table_def Let_def)
    show ?thesis
      by (rule exI[of _ "out1 @ [''Error: Could not read CSV data'']"], rule exI[of _ False],
          rule exI[of _ data]) (use eq True data empty in simp)
  next
    case ne: False
    show ?thesis
    proof (cases "int (length data) < header_lines")
      case True
      with rl ne have eq: "csv_to_latex_table e input_csv output_tex caption label landscape header_lines
          = (out1 @ [''Error: Not enough rows for '' @ str_int header_lines @ '' header lines''], Inr False)"
        by (simp add: csv_to_latex_table_def Let_def)
      show ?thesis
        by (rule exI[of _ "out1 @ [''Error: Not enough rows for '' @ str_int header_lines @ '' header lines'']"],
            rule exI[of _ False], rule exI[of _ data]) (use eq True data empty in simp)
    next
      case enough: False
      then have "header_lines \<le> int (length ?p)" by (simp add: lenp)
      from loops_return[OF assms this]
      obtain hs rows where h: "header_loop ?p (py_range 0 header_lines) [] = Inr hs"
        and d: "data_loop ?p (py_range header_lines (int (length ?p))) [] = Inr rows" by blast
      let ?doc = "document landscape caption label (ncols_of data) hs rows"
      let ?out2 = "out1 @ [''Detected '' @ str_nat (ncols_of data) @ '' columns in CSV'']"
      show ?thesis
      proof (cases "write_document e output_tex ?doc")
        case None
        with rl ne enough h d
        have eq: "csv_to_latex_table e input_csv output_tex caption label landscape header_lines
            = (?out2, Inr True)"
          by (simp add: csv_to_latex_table_def Let_def lenp)
        have w: "\<not> (\<exists>header_rows rows.
                    header_loop ?p (py_range 0 header_lines) [] = Inr header_rows
                  \<and> data_loop ?p (py_range header_lines (int (length ?p))) [] = Inr rows
                  \<and> write_document e output_tex
                       (document landscape caption label (ncols_of data) header_rows rows) \<noteq> None)"
          using h d None by auto
        show ?thesis
          by (rule exI[of _ ?out2], rule exI[of _ True], rule exI[of _ data])
             (use eq w ne enough data empty in simp)
      next
        case (Some ex)
        with rl ne enough h d
        have eq: "csv_to_latex_table e input_csv output_tex caption label landscape header_lines
            = (?out2 @ [''Error writing LaTeX: '' @ exn_msg ex], Inr False)"
          by (simp add: csv_to_latex_table_def Let_def lenp)
        have w: "\<exists>header_rows rows.
                    header_loop ?p (py_range 0 header_lines) [] = Inr header_rows
                  \<and> data_loop ?p (py_range header_lines (int (length ?p))) [] = Inr rows
                  \<and> write_document e output_tex
                       (document landscape caption label (ncols_of data) header_rows rows) \<noteq> None"
          using h d Some by auto
        show ?thesis
          by (rule exI[of _ "?out2 @ [''Error writing LaTeX: '' @ exn_msg ex]"], rule exI[of _ False],
              rule exI[of _ data]) (use eq w data empty in simp)
      qed
    qed
  qed
qed

theorem csv_to_latex_table_returns_witness:
  "(0::int) \<le> 2
   \<and> (\<exists>out. csv_to_latex_table sample_env ''Book1.csv'' ''output.tex'' ''Summary'' ''tab:s'' True 2
          = (out, Inr True))"
proof -
  let ?enc = "detect_encoding sample_env ''Book1.csv''"
  have data: "fst (read_loop sample_env ''Book1.csv'' (encodings_to_try ?enc) []
                [''Detected encoding: '' @ ?enc]) = sample_rows"
    by (simp add: detect_encoding_def sample_env_def encodings_to_try_def sample_rows_def)
  have w: "write_document sample_env path chunks = None" for path chunks
    by (simp add: write_document_def write_all_ok sample_env_def)
  have h0: "(0::int) \<le> 2" by simp
  from csv_to_latex_table_returns[OF h0, where e = sample_env and input_csv = "''Book1.csv''"
      and output_tex = "''output.tex''" and caption = "''Summary''" and label = "''tab:s''"
      and landscape = True]
  obtain out b d where
    r: "csv_to_latex_table sample_env ''Book1.csv'' ''output.tex'' ''Summary'' ''tab:s'' True 2 = (out, Inr b)"
    and d: "d = fst (read_loop sample_env ''Book1.csv'' (encodings_to_try ?enc) []
                [''Detected encoding: '' @ ?enc])"
    and b: "b = False \<longleftrightarrow> d = [] \<or> int (length d) < 2
        \<or> (\<exists>header_rows rows.
              header_loop (pad_rows (ncols_of d) d) (py_range 0 2) [] = Inr header_rows
            \<and> data_loop (pad_rows (ncols_of d) d)
                 (py_range 2 (int (length (pad_rows (ncols_of d) d)))) [] = Inr rows
            \<and> write_document sample_env ''output.tex''
                 (document True ''Summary'' ''tab:s'' (ncols_of d) header_rows rows) \<noteq> None)"
    by (elim exE conjE) simp
  from d data have dd: "d = sample_rows" by simp
  from b have "b = True" unfolding dd by (simp add: w sample_rows_def)
  with r show ?thesis by simp
qed

text \<open>
  Below zero the data loop starts at a negative index, which counts from the end of the
  table and, once beyond its start, raises \<open>IndexError\<close> outside every \<open>try\<close>.
\<close>

lemma csv_to_latex_table_negative_header_lines:
  "snd (csv_to_latex_table sample_env ''Book1.csv'' ''output.tex'' ''Summary'' ''tab:s'' True (- 4))
     = Inl IndexError"
  by code_simp

end
